theory Spec2Isabelle
  imports Complex_Main
begin

section \<open>Cobb-Douglas demand: the notebook's functions\<close>

text \<open>
  The notebook \<^verbatim>\<open>demo-utility-budgetconstraint.ipynb\<close> defines four functions of numbers:
  \<^verbatim>\<open>
  def utility(x1,alpha,x2,beta):
      return (x1**alpha)*(x2**beta)

  def isoquant(x1,alpha,beta,u):
      return (u/(x1**alpha))**(1/beta)

  def budgetconst(m,p1,p2,x1):
      return (m/p2)-(p1/p2)*x1

  def find_optimal(p1,p2,alpha,beta,m=1):
      x2 = m/((alpha/beta)*(p2)+p2)
      x1 = (alpha/beta)*(p2/p1)*x2
      u = utility(x1,alpha,x2,beta)
      return x1,x2,u
  \<close>
  with \<^verbatim>\<open>/\<close> the true division (Python 3; the notebook also imports it from
  \<^verbatim>\<open>__future__\<close>). Its sliders call \<^verbatim>\<open>find_optimal\<close> with floats \<open>alpha\<close>, \<open>beta\<close> and
  ints \<open>p1\<close>, \<open>p2\<close>, \<open>m\<close>. The notebook's plot also applies \<^verbatim>\<open>isoquant\<close> and
  \<^verbatim>\<open>budgetconst\<close> to an array of \<^verbatim>\<open>x1\<close>; the model is of the call on numbers.

  A number is a Python \<^verbatim>\<open>int\<close>, unbounded, or a Python \<^verbatim>\<open>float\<close>, an IEEE 754 double:
  a finite value, a negative zero, an infinity or a NaN. The arithmetic is CPython's:
  every float operation rounds its exact result to the nearest double, ties to even,
  with gradual underflow; \<^verbatim>\<open>*\<close>, \<^verbatim>\<open>/\<close>, \<^verbatim>\<open>+\<close> and \<^verbatim>\<open>-\<close> on floats overflow silently to
  an infinity and give NaN where IEEE 754 does; a division by zero raises
  \<^verbatim>\<open>ZeroDivisionError\<close>; an int too large for a double, and a power that overflows,
  raise \<^verbatim>\<open>OverflowError\<close>. Two things are idealised. The power of two doubles is the
  correctly rounded one, where CPython calls the C library's \<^verbatim>\<open>pow\<close>, which may be one
  unit in the last place off. And a negative base with a fractional exponent leaves
  the floats for Python's \<^verbatim>\<open>complex\<close>: the model records this as the outcome
  \<open>Goes_complex\<close> and follows the computation no further.
\<close>

section \<open>Binary floating point\<close>

definition round_half_even :: "real \<Rightarrow> int" where
  "round_half_even r =
     (let n = \<lfloor>r\<rfloor>; d = r - of_int n
      in if d < 1/2 then n else if 1/2 < d then n + 1 else if even n then n else n + 1)"

definition expo :: "real \<Rightarrow> int" where
  "expo x = max \<lfloor>log 2 \<bar>x\<bar>\<rfloor> (- 1022)"

definition ulp :: "real \<Rightarrow> real" where
  "ulp x = 2 powi (expo x - 52)"

definition rnd :: "real \<Rightarrow> real" where
  "rnd x = of_int (round_half_even (x / ulp x)) * ulp x"

datatype double = Finite real | NegZero | PosInf | NegInf | NaN

definition to_double :: "bool \<Rightarrow> real \<Rightarrow> double" where
  "to_double neg x =
     (let y = rnd x
      in if 2 ^ 1024 \<le> y then PosInf
         else if y \<le> - (2 ^ 1024) then NegInf
         else if y = 0 then (if neg then NegZero else Finite 0)
         else Finite y)"

fun is_zero :: "double \<Rightarrow> bool" where
  "is_zero (Finite x) = (x = 0)"
| "is_zero NegZero = True"
| "is_zero _ = False"

fun is_inf :: "double \<Rightarrow> bool" where
  "is_inf PosInf = True"
| "is_inf NegInf = True"
| "is_inf _ = False"

fun sign_bit :: "double \<Rightarrow> bool" where
  "sign_bit (Finite x) = (x < 0)"
| "sign_bit NegZero = True"
| "sign_bit NegInf = True"
| "sign_bit _ = False"

fun fval :: "double \<Rightarrow> real" where
  "fval (Finite x) = x"
| "fval _ = 0"

fun negate :: "double \<Rightarrow> double" where
  "negate (Finite x) = (if x = 0 then NegZero else Finite (- x))"
| "negate NegZero = Finite 0"
| "negate PosInf = NegInf"
| "negate NegInf = PosInf"
| "negate NaN = NaN"

definition ieee_mul :: "double \<Rightarrow> double \<Rightarrow> double" where
  "ieee_mul a b =
     (if a = NaN \<or> b = NaN then NaN
      else if is_inf a \<or> is_inf b then
        (if is_zero a \<or> is_zero b then NaN
         else if sign_bit a \<noteq> sign_bit b then NegInf else PosInf)
      else to_double (sign_bit a \<noteq> sign_bit b) (fval a * fval b))"

definition ieee_div :: "double \<Rightarrow> double \<Rightarrow> double" where
  "ieee_div a b =
     (if a = NaN \<or> b = NaN then NaN
      else if is_inf a then
        (if is_inf b then NaN
         else if sign_bit a \<noteq> sign_bit b then NegInf else PosInf)
      else if is_inf b then
        (if sign_bit a \<noteq> sign_bit b then NegZero else Finite 0)
      else to_double (sign_bit a \<noteq> sign_bit b) (fval a / fval b))"

definition ieee_add :: "double \<Rightarrow> double \<Rightarrow> double" where
  "ieee_add a b =
     (if a = NaN \<or> b = NaN then NaN
      else if is_inf a then (if is_inf b \<and> a \<noteq> b then NaN else a)
      else if is_inf b then b
      else if is_zero a \<and> is_zero b then
        (if a = NegZero \<and> b = NegZero then NegZero else Finite 0)
      else to_double False (fval a + fval b))"

definition ieee_sub :: "double \<Rightarrow> double \<Rightarrow> double" where
  "ieee_sub a b = ieee_add a (negate b)"

section \<open>Python numbers and their arithmetic\<close>

datatype error = ZeroDivisionError | OverflowError

datatype 'a outcome = Raises error | Goes_complex | Returns 'a

fun and_then :: "'a outcome \<Rightarrow> ('a \<Rightarrow> 'b outcome) \<Rightarrow> 'b outcome" where
  "and_then (Raises e) f = Raises e"
| "and_then Goes_complex f = Goes_complex"
| "and_then (Returns v) f = f v"

datatype number = PyInt int | PyFloat double

definition finite_or_overflow :: "double \<Rightarrow> double outcome" where
  "finite_or_overflow d = (if is_inf d then Raises OverflowError else Returns d)"

fun as_float :: "number \<Rightarrow> double outcome" where
  "as_float (PyInt i) = finite_or_overflow (to_double False (of_int i))"
| "as_float (PyFloat d) = Returns d"

definition odd_integer :: "real \<Rightarrow> bool" where
  "odd_integer y \<longleftrightarrow> y = of_int \<lfloor>y\<rfloor> \<and> odd \<lfloor>y\<rfloor>"

definition float_pow :: "double \<Rightarrow> double \<Rightarrow> double outcome" where
  "float_pow iv iw =
     (if is_zero iw then Returns (Finite 1)
      else if iv = NaN then Returns NaN
      else if iw = NaN then Returns (if iv = Finite 1 then Finite 1 else NaN)
      else if is_inf iw then
        (if \<bar>fval iv\<bar> = 1 then Returns (Finite 1)
         else if (iw = PosInf) = (is_inf iv \<or> 1 < \<bar>fval iv\<bar>) then Returns PosInf
         else Returns (Finite 0))
      else if is_inf iv then
        (if 0 < fval iw then Returns (if odd_integer (fval iw) then iv else PosInf)
         else Returns (if odd_integer (fval iw) \<and> iv = NegInf then NegZero else Finite 0))
      else if is_zero iv then
        (if fval iw < 0 then Raises ZeroDivisionError
         else Returns (if odd_integer (fval iw) then iv else Finite 0))
      else if fval iv < 0 \<and> fval iw \<noteq> of_int \<lfloor>fval iw\<rfloor> then Goes_complex
      else if \<bar>fval iv\<bar> = 1 then
        Returns (Finite (if fval iv < 0 \<and> odd_integer (fval iw) then - 1 else 1))
      else
        and_then (finite_or_overflow (to_double False (\<bar>fval iv\<bar> powr fval iw))) (\<lambda>d.
        Returns (if fval iv < 0 \<and> odd_integer (fval iw) then negate d else d)))"

fun py_add :: "number \<Rightarrow> number \<Rightarrow> number outcome" where
  "py_add (PyInt i) (PyInt j) = Returns (PyInt (i + j))"
| "py_add a b =
     and_then (as_float a) (\<lambda>x.
     and_then (as_float b) (\<lambda>y.
     Returns (PyFloat (ieee_add x y))))"

fun py_sub :: "number \<Rightarrow> number \<Rightarrow> number outcome" where
  "py_sub (PyInt i) (PyInt j) = Returns (PyInt (i - j))"
| "py_sub a b =
     and_then (as_float a) (\<lambda>x.
     and_then (as_float b) (\<lambda>y.
     Returns (PyFloat (ieee_sub x y))))"

fun py_mul :: "number \<Rightarrow> number \<Rightarrow> number outcome" where
  "py_mul (PyInt i) (PyInt j) = Returns (PyInt (i * j))"
| "py_mul a b =
     and_then (as_float a) (\<lambda>x.
     and_then (as_float b) (\<lambda>y.
     Returns (PyFloat (ieee_mul x y))))"

fun py_div :: "number \<Rightarrow> number \<Rightarrow> number outcome" where
  "py_div (PyInt i) (PyInt j) =
     (if j = 0 then Raises ZeroDivisionError
      else and_then (finite_or_overflow (to_double ((i < 0) \<noteq> (j < 0)) (of_int i / of_int j)))
             (\<lambda>d. Returns (PyFloat d)))"
| "py_div a b =
     and_then (as_float a) (\<lambda>x.
     and_then (as_float b) (\<lambda>y.
     if is_zero y then Raises ZeroDivisionError else Returns (PyFloat (ieee_div x y))))"

fun py_pow :: "number \<Rightarrow> number \<Rightarrow> number outcome" where
  "py_pow (PyInt i) (PyInt j) =
     (if 0 \<le> j then Returns (PyInt (i ^ nat j))
      else
        and_then (as_float (PyInt i)) (\<lambda>x.
        and_then (as_float (PyInt j)) (\<lambda>y.
        and_then (float_pow x y) (\<lambda>d. Returns (PyFloat d)))))"
| "py_pow a b =
     and_then (as_float a) (\<lambda>x.
     and_then (as_float b) (\<lambda>y.
     and_then (float_pow x y) (\<lambda>d. Returns (PyFloat d))))"

section \<open>The notebook's functions\<close>

definition utility :: "number \<Rightarrow> number \<Rightarrow> number \<Rightarrow> number \<Rightarrow> number outcome" where
  "utility x1 alpha x2 beta =
     and_then (py_pow x1 alpha) (\<lambda>a.
     and_then (py_pow x2 beta) (\<lambda>b.
     py_mul a b))"

definition isoquant :: "number \<Rightarrow> number \<Rightarrow> number \<Rightarrow> number \<Rightarrow> number outcome" where
  "isoquant x1 alpha beta u =
     and_then (py_pow x1 alpha) (\<lambda>a.
     and_then (py_div u a) (\<lambda>b.
     and_then (py_div (PyInt 1) beta) (\<lambda>e.
     py_pow b e)))"

definition budgetconst :: "number \<Rightarrow> number \<Rightarrow> number \<Rightarrow> number \<Rightarrow> number outcome" where
  "budgetconst m p1 p2 x1 =
     and_then (py_div m p2) (\<lambda>a.
     and_then (py_div p1 p2) (\<lambda>b.
     and_then (py_mul b x1) (\<lambda>c.
     py_sub a c)))"

definition find_optimal ::
  "number \<Rightarrow> number \<Rightarrow> number \<Rightarrow> number \<Rightarrow> number option
     \<Rightarrow> (number \<times> number \<times> number) outcome" where
  "find_optimal p1 p2 alpha beta mo =
     (let m = (case mo of None \<Rightarrow> PyInt 1 | Some v \<Rightarrow> v) in
      and_then (py_div alpha beta) (\<lambda>q.
      and_then (py_mul q p2) (\<lambda>a.
      and_then (py_add a p2) (\<lambda>d.
      and_then (py_div m d) (\<lambda>x2.
      and_then (py_div alpha beta) (\<lambda>q'.
      and_then (py_div p2 p1) (\<lambda>r.
      and_then (py_mul q' r) (\<lambda>b.
      and_then (py_mul b x2) (\<lambda>x1.
      and_then (utility x1 alpha x2 beta) (\<lambda>u.
      Returns (x1, x2, u)))))))))))"

abbreviation flt :: "real \<Rightarrow> number" where
  "flt x \<equiv> PyFloat (Finite x)"

definition near :: "real \<Rightarrow> real \<Rightarrow> bool" where
  "near y x \<longleftrightarrow> x * (1 - 1 / 2 ^ 53) \<le> y \<and> y \<le> x * (1 + 1 / 2 ^ 53)"

definition inrng :: "int \<Rightarrow> real \<Rightarrow> bool" where
  "inrng K x \<longleftrightarrow> 2 powi (- K) \<le> x \<and> x \<le> 2 powi K"

definition spent :: "number \<Rightarrow> number \<Rightarrow> number \<Rightarrow> number \<Rightarrow> number outcome" where
  "spent p1 p2 x1 x2 =
     and_then (py_mul x1 p1) (\<lambda>a.
     and_then (py_mul x2 p2) (\<lambda>b.
     py_add a b))"

definition zero_number :: "number \<Rightarrow> bool" where
  "zero_number b \<longleftrightarrow> b = PyInt 0 \<or> b = PyFloat (Finite 0) \<or> b = PyFloat NegZero"

fun value_of :: "number \<Rightarrow> real" where
  "value_of (PyInt i) = of_int i"
| "value_of (PyFloat d) = fval d"

fun ordinary :: "number \<Rightarrow> bool" where
  "ordinary (PyInt i) \<longleftrightarrow> 1 \<le> i \<and> i < 2 ^ 53"
| "ordinary (PyFloat (Finite x)) \<longleftrightarrow> inrng 100 x"
| "ordinary (PyFloat d) \<longleftrightarrow> False"

definition ratio_of :: "(number \<times> number \<times> number) outcome \<Rightarrow> number outcome" where
  "ratio_of r = and_then r (\<lambda>(x1, x2, u). py_div x1 x2)"

section \<open>Rounding\<close>

lemma round_half_even_of_int: "round_half_even (of_int n) = n"
  by (simp add: round_half_even_def)

lemma round_half_even_near: "\<bar>of_int (round_half_even r) - r\<bar> \<le> 1/2"
  unfolding round_half_even_def Let_def by (auto; linarith)

lemma round_half_even_eqI:
  assumes "\<bar>r - of_int n\<bar> < 1/2"
  shows "round_half_even r = n"
proof -
  have "\<bar>of_int (round_half_even r) - r\<bar> \<le> 1/2"
    by (rule round_half_even_near)
  with assms have "\<bar>(of_int (round_half_even r) :: real) - of_int n\<bar> < 1"
    by linarith
  then have "\<bar>round_half_even r - n\<bar> < 1"
    by (metis of_int_abs of_int_diff of_int_less_1_iff)
  then show ?thesis
    by linarith
qed

lemma round_half_even_tie:
  assumes "r = of_int n + 1/2"
  shows "round_half_even r = (if even n then n else n + 1)"
proof -
  have "\<lfloor>r\<rfloor> = n"
    unfolding assms by linarith
  then show ?thesis
    by (simp add: round_half_even_def Let_def assms)
qed

lemma two_powr_of_int: "(2::real) powr (of_int j) = 2 powi j"
  by (simp add: powr_real_of_int')

lemma floor_log2_eqI:
  assumes "2 powi k \<le> x" "x < 2 powi (k + 1)"
  shows "\<lfloor>log 2 x\<rfloor> = k"
proof -
  have "(0::real) < 2 powi k"
    by simp
  with assms(1) have pos: "0 < x"
    by linarith
  have "2 powr (of_int k) \<le> x" "x < 2 powr (of_int (k + 1))"
    using assms by (simp_all only: two_powr_of_int)
  then have "of_int k \<le> log 2 x" "log 2 x < of_int (k + 1)"
    using pos by (simp_all only: le_log_iff [symmetric] log_less_iff [symmetric])
  then show ?thesis
    by linarith
qed

lemma floor_log2_bounds:
  assumes "0 < x"
  shows "2 powi \<lfloor>log 2 x\<rfloor> \<le> x" "x < 2 powi (\<lfloor>log 2 x\<rfloor> + 1)"
proof -
  have "of_int \<lfloor>log 2 x\<rfloor> \<le> log 2 x" "log 2 x < of_int (\<lfloor>log 2 x\<rfloor> + 1)"
    by linarith+
  then have "2 powr (of_int \<lfloor>log 2 x\<rfloor>) \<le> x" "x < 2 powr (of_int (\<lfloor>log 2 x\<rfloor> + 1))"
    using assms by (simp_all only: le_log_iff log_less_iff)
  then show "2 powi \<lfloor>log 2 x\<rfloor> \<le> x" "x < 2 powi (\<lfloor>log 2 x\<rfloor> + 1)"
    by (simp_all only: two_powr_of_int)
qed

lemma two_powi_less_iff: "(2::real) powi m < 2 powi n \<longleftrightarrow> m < n"
proof
  assume "(2::real) powi m < 2 powi n"
  show "m < n"
  proof (rule ccontr)
    assume "\<not> m < n"
    then have "(2::real) powi n \<le> 2 powi m"
      by (intro power_int_increasing) simp_all
    with \<open>(2::real) powi m < 2 powi n\<close> show False
      by linarith
  qed
next
  assume "m < n"
  then show "(2::real) powi m < 2 powi n"
    by (intro power_int_strict_increasing) simp_all
qed

lemma two_powi_le_iff: "(2::real) powi m \<le> 2 powi n \<longleftrightarrow> m \<le> n"
  using two_powi_less_iff [of n m] by (simp add: not_less [symmetric])

lemma ulp_pos: "0 < ulp x"
  by (simp add: ulp_def)

lemma rnd_zero: "rnd 0 = 0"
  by (simp add: rnd_def round_half_even_def)

lemma expo_eqI:
  assumes "- 1022 \<le> k" "2 powi k \<le> \<bar>x\<bar>" "\<bar>x\<bar> < 2 powi (k + 1)"
  shows "expo x = k"
  using floor_log2_eqI [OF assms(2,3)] assms(1) by (simp add: expo_def)

lemma expo_subnormal:
  assumes "x \<noteq> 0" "\<bar>x\<bar> < 2 powi (- 1022)"
  shows "expo x = - 1022"
proof -
  have "2 powi \<lfloor>log 2 \<bar>x\<bar>\<rfloor> \<le> \<bar>x\<bar>"
    using assms(1) by (intro floor_log2_bounds) simp
  with assms(2) have "(2::real) powi \<lfloor>log 2 \<bar>x\<bar>\<rfloor> < 2 powi (- 1022)"
    by linarith
  then have "\<lfloor>log 2 \<bar>x\<bar>\<rfloor> < - 1022"
    by (simp only: two_powi_less_iff) 
  then show ?thesis
    by (simp add: expo_def)
qed

lemma rnd_eqI:
  assumes "expo x = e" "round_half_even (x / 2 powi (e - 52)) = n"
  shows "rnd x = of_int n * 2 powi (e - 52)"
  using assms by (simp add: rnd_def ulp_def)

lemma round_half_even_small:
  assumes "\<bar>r\<bar> \<le> 1/2"
  shows "round_half_even r = 0"
proof (cases "\<bar>r\<bar> < 1/2")
  case True
  then show ?thesis
    by (intro round_half_even_eqI) simp
next
  case False
  with assms have "r = of_int 0 + 1/2 \<or> r = of_int (- 1) + 1/2"
    by auto
  then show ?thesis
    using round_half_even_tie [of r 0] round_half_even_tie [of r "- 1"] by auto
qed

lemma rnd_tiny:
  assumes "\<bar>x\<bar> \<le> 2 powi (- 1075)"
  shows "rnd x = 0"
proof (cases "x = 0")
  case True
  then show ?thesis by (simp add: rnd_zero)
next
  case False
  have "(2::real) powi (- 1075) < 2 powi (- 1022)"
    by (simp only: two_powi_less_iff)
  with assms have "\<bar>x\<bar> < 2 powi (- 1022)"
    by linarith
  with False have e: "expo x = - 1022"
    by (rule expo_subnormal)
  have "\<bar>x / 2 powi (- 1074)\<bar> = \<bar>x\<bar> * 2 powi 1074"
    by (simp add: power_int_minus abs_mult field_simps)
  also have "\<dots> \<le> 2 powi (- 1075) * 2 powi 1074"
    using assms by (intro mult_right_mono) simp_all
  also have "\<dots> = 1/2"
    by (simp add: power_int_add [symmetric])
  finally have "round_half_even (x / 2 powi (- 1022 - 52)) = 0"
    by (intro round_half_even_small) simp
  from rnd_eqI [OF e this] show ?thesis
    by simp
qed

lemma rnd_error:
  assumes "2 powi (- 1022) \<le> \<bar>x\<bar>"
  shows "\<bar>rnd x - x\<bar> \<le> \<bar>x\<bar> / 2 ^ 53"
proof -
  define e where "e = \<lfloor>log 2 \<bar>x\<bar>\<rfloor>"
  have "(0::real) < 2 powi (- 1022)"
    by simp
  with assms have pos: "0 < \<bar>x\<bar>"
    by linarith
  have lo: "2 powi e \<le> \<bar>x\<bar>"
    unfolding e_def using pos by (rule floor_log2_bounds)
  have "\<bar>x\<bar> < 2 powi (e + 1)"
    unfolding e_def using pos by (rule floor_log2_bounds)
  with assms have "(2::real) powi (- 1022) < 2 powi (e + 1)"
    by linarith
  then have "- 1022 \<le> e"
    by (simp only: two_powi_less_iff)
  then have ex: "expo x = e"
    by (simp add: expo_def e_def)
  define u where "u = (2::real) powi (e - 52)"
  have u: "0 < u" "ulp x = u"
    by (simp_all add: u_def ulp_def ex)
  have "rnd x - x = (of_int (round_half_even (x / u)) - x / u) * u"
    using u(1) by (simp add: rnd_def u(2) left_diff_distrib)
  then have "\<bar>rnd x - x\<bar> = \<bar>of_int (round_half_even (x / u)) - x / u\<bar> * \<bar>u\<bar>"
    by (simp only: abs_mult)
  also have "\<bar>u\<bar> = u"
    using u(1) by simp
  finally have "\<bar>rnd x - x\<bar> = \<bar>of_int (round_half_even (x / u)) - x / u\<bar> * u" .
  also have "\<dots> \<le> 1/2 * u"
    using u(1) by (intro mult_right_mono round_half_even_near) simp
  also have "\<dots> = 2 powi e / 2 ^ 53"
    by (simp add: u_def power_int_diff)
  also have "\<dots> \<le> \<bar>x\<bar> / 2 ^ 53"
    using lo by (simp add: divide_right_mono)
  finally show ?thesis .
qed

lemma round_half_even_ge:
  assumes "of_int N \<le> r"
  shows "N \<le> round_half_even r"
proof -
  from assms have "N \<le> \<lfloor>r\<rfloor>"
    by (simp add: le_floor_iff)
  then show ?thesis
    unfolding round_half_even_def Let_def by auto
qed

lemma rnd_scaled:
  assumes "\<bar>m\<bar> < 2 ^ 53" "- 1074 \<le> q"
  shows "rnd (of_int m * 2 powi q) = of_int m * 2 powi q"
proof (cases "m = 0")
  case True
  then show ?thesis by (simp add: rnd_zero)
next
  case m0: False
  define x :: real where "x = of_int m * 2 powi q"
  define e where "e = expo x"
  have x0: "x \<noteq> 0"
    using m0 by (simp add: x_def)
  have "2 powi \<lfloor>log 2 \<bar>x\<bar>\<rfloor> \<le> \<bar>x\<bar>"
    using x0 by (intro floor_log2_bounds) simp
  also have "\<bar>x\<bar> = of_int \<bar>m\<bar> * 2 powi q"
    by (simp add: x_def abs_mult)
  also have "\<dots> < 2 ^ 53 * 2 powi q"
    using assms(1) by (intro mult_strict_right_mono) (simp_all flip: of_int_less_iff)
  also have "\<dots> = 2 powi (53 + q)"
    by (simp add: power_int_add)
  finally have "\<lfloor>log 2 \<bar>x\<bar>\<rfloor> < 53 + q"
    by (simp only: two_powi_less_iff)
  with assms(2) have le: "e - 52 \<le> q"
    by (simp add: e_def expo_def)
  define j where "j = nat (q - (e - 52))"
  have "x / 2 powi (e - 52) = of_int m * 2 powi (q - (e - 52))"
    by (simp add: x_def power_int_diff)
  also have "\<dots> = of_int (m * 2 ^ j)"
    using le by (simp add: j_def power_int_def)
  finally have "round_half_even (x / 2 powi (e - 52)) = m * 2 ^ j"
    by (simp only: round_half_even_of_int)
  with rnd_eqI [of x e] have "rnd x = of_int (m * 2 ^ j) * 2 powi (e - 52)"
    by (simp add: e_def)
  also have "\<dots> = of_int m * (2 powi (q - (e - 52)) * 2 powi (e - 52))"
    using le by (simp add: j_def power_int_def)
  also have "\<dots> = x"
    by (simp add: x_def flip: power_int_add)
  finally show ?thesis
    by (simp add: x_def)
qed

lemma rnd_powi: "- 1074 \<le> k \<Longrightarrow> rnd (2 powi k) = 2 powi k"
  using rnd_scaled [of 1 k] by simp

lemma to_double_zero: "to_double s 0 = (if s then NegZero else Finite 0)"
  by (simp add: to_double_def rnd_zero)

lemma to_double_tiny:
  "\<bar>x\<bar> \<le> 2 powi (- 1075) \<Longrightarrow> to_double s x = (if s then NegZero else Finite 0)"
  by (simp add: to_double_def rnd_tiny)

lemma to_double_powi:
  assumes "- 1074 \<le> k" "k \<le> 1023"
  shows "to_double s (2 powi k) = Finite (2 powi k)"
proof -
  have "(2::real) powi k < 2 powi 1024"
    using assms by (simp only: two_powi_less_iff)
  then have "(2::real) powi k < 2 ^ 1024"
    by simp
  moreover have "- (2 ^ 1024) < (0::real)" "(0::real) < 2 powi k"
    by simp_all
  then have "- (2 ^ 1024) < (2::real) powi k"
    by (rule less_trans)
  moreover have "(2::real) powi k \<noteq> 0"
    by simp
  ultimately show ?thesis
    using assms by (simp add: to_double_def rnd_powi not_le)
qed

lemma to_double_one: "to_double s 1 = Finite 1"
  using to_double_powi [of 0 s] by simp

lemma to_double_powi_huge:
  assumes "1024 \<le> k"
  shows "to_double s (2 powi k) = PosInf"
proof -
  have "(2::real) powi 1024 \<le> 2 powi k"
    using assms by (simp only: two_powi_le_iff)
  then have "(2::real) ^ 1024 \<le> 2 powi k"
    by simp
  then show ?thesis
    using assms by (simp add: to_double_def rnd_powi)
qed

lemma two_powi_eq_one_iff: "(2::real) powi k = 1 \<longleftrightarrow> k = 0"
  using two_powi_less_iff [of k 0] two_powi_less_iff [of 0 k] by (cases "k = 0") auto

lemma powi_double: "(2::real) powi k + 2 powi k = 2 powi (k + 1)"
  by (simp add: power_int_add)

lemma two_powi_not_neg: "\<not> (2::real) powi k < 0"
  by (simp add: not_less)

lemma odd_integer_one: "odd_integer 1"
  by (simp add: odd_integer_def)

lemma float_pow_one:
  assumes "- 1074 \<le> k" "k \<le> 1023" "k \<noteq> 0"
  shows "float_pow (Finite (2 powi k)) (Finite 1) = Returns (Finite (2 powi k))"
  using assms
  by (simp add: float_pow_def two_powi_eq_one_iff to_double_powi finite_or_overflow_def
      two_powi_not_neg)

lemma float_pow_zero_one: "float_pow (Finite 0) (Finite 1) = Returns (Finite 0)"
  by (simp add: float_pow_def odd_integer_one)

lemma underflow_bundle_gen:
  assumes "538 \<le> k" "k \<le> 1023"
  shows "find_optimal (flt (2 powi k)) (flt (2 powi (- k))) (flt 1) (flt 1) (Some (flt 1))
         = Returns (flt 0, flt (2 powi (k - 1)), flt 0)"
proof -
  have q: "py_div (flt 1) (flt 1) = Returns (flt 1)"
    by (simp add: ieee_div_def to_double_one)
  have a: "py_mul (flt 1) (flt (2 powi (- k))) = Returns (flt (2 powi (- k)))"
    using assms by (simp add: ieee_mul_def to_double_powi two_powi_not_neg)
  have d: "py_add (flt (2 powi (- k))) (flt (2 powi (- k))) = Returns (flt (2 powi (1 - k)))"
    using assms by (simp add: ieee_add_def powi_double to_double_powi)
  have "(1::real) / 2 powi (1 - k) = 2 powi (k - 1)"
    by (simp add: power_int_diff)
  then have x2: "py_div (flt 1) (flt (2 powi (1 - k))) = Returns (flt (2 powi (k - 1)))"
    using assms by (simp add: ieee_div_def to_double_powi two_powi_not_neg)
  have "(2::real) powi (- k) / 2 powi k = 2 powi (- k - k)"
    by (rule power_int_diff [symmetric]) simp
  moreover have "(2::real) powi (- k - k) \<le> 2 powi (- 1075)"
    using assms by (simp only: two_powi_le_iff)
  ultimately have r: "py_div (flt (2 powi (- k))) (flt (2 powi k)) = Returns (flt 0)"
    by (simp add: ieee_div_def to_double_tiny two_powi_not_neg)
  have b: "py_mul (flt 1) (flt 0) = Returns (flt 0)"
    by (simp add: ieee_mul_def to_double_zero)
  have x1: "py_mul (flt 0) (flt (2 powi (k - 1))) = Returns (flt 0)"
    by (simp add: ieee_mul_def to_double_zero two_powi_not_neg)
  have u: "utility (flt 0) (flt 1) (flt (2 powi (k - 1))) (flt 1) = Returns (flt 0)"
    using assms
    by (simp add: utility_def float_pow_zero_one float_pow_one ieee_mul_def to_double_zero
        two_powi_not_neg)
  show ?thesis
    unfolding find_optimal_def Let_def
    by (simp only: option.case q a d x2 r b x1 u and_then.simps)
qed

lemma inrng_pos:
  assumes "inrng K x"
  shows "0 < x"
proof -
  have "(0::real) < 2 powi (- K)"
    by simp
  with assms show ?thesis
    unfolding inrng_def by linarith
qed

lemma inrng_mono:
  assumes "inrng K x" "K \<le> K'"
  shows "inrng K' x"
proof -
  have "(2::real) powi (- K') \<le> 2 powi (- K)" "(2::real) powi K \<le> 2 powi K'"
    using assms(2) by (simp_all only: two_powi_le_iff)
  with assms(1) show ?thesis
    unfolding inrng_def by linarith
qed

lemma inrng_mult: 
  assumes "inrng a x" "inrng b y"
  shows "inrng (a + b) (x * y)"
proof -
  have x: "2 powi (- a) \<le> x" "x \<le> 2 powi a" and y: "2 powi (- b) \<le> y" "y \<le> 2 powi b"
    using assms by (simp_all add: inrng_def)
  have p: "0 \<le> x" "0 \<le> y"
    using inrng_pos [OF assms(1)] inrng_pos [OF assms(2)] by simp_all
  have "2 powi (- a) * 2 powi (- b) \<le> x * y"
    using x(1) y(1) by (rule mult_mono) (simp_all add: p)
  moreover have "x * y \<le> 2 powi a * 2 powi b"
    using x(2) y(2) by (rule mult_mono) (simp_all add: p)
  moreover have "(2::real) powi (- (a + b)) = 2 powi (- a) * 2 powi (- b)"
    using power_int_add [of "2::real" "- a" "- b"] by simp
  moreover have "(2::real) powi (a + b) = 2 powi a * 2 powi b"
    by (simp add: power_int_add)
  ultimately show ?thesis
    unfolding inrng_def by (simp only: simp_thms)
qed

lemma inrng_inverse:
  assumes "inrng a x"
  shows "inrng a (inverse x)"
proof -
  have p: "0 < x" using assms by (rule inrng_pos)
  have "inverse (2 powi a) \<le> inverse x"
    using assms p unfolding inrng_def by (intro le_imp_inverse_le) simp_all
  moreover have "inverse x \<le> inverse (2 powi (- a))"
    using assms p unfolding inrng_def by (intro le_imp_inverse_le) simp_all
  ultimately show ?thesis
    unfolding inrng_def by (simp add: power_int_minus)
qed

lemma inrng_div: "inrng a x \<Longrightarrow> inrng b y \<Longrightarrow> inrng (a + b) (x / y)"
  unfolding divide_inverse by (intro inrng_mult inrng_inverse)

lemma inrng_add:
  assumes "inrng a x" "inrng a y" "0 \<le> a"
  shows "inrng (a + 1) (x + y)"
proof -
  have "x + y \<le> 2 powi a + 2 powi a"
    using assms unfolding inrng_def by (intro add_mono) simp_all
  then have "x + y \<le> 2 powi (a + 1)"
    by (simp only: powi_double)
  moreover have "(2::real) powi (- (a + 1)) \<le> 2 powi (- a)"
    by (simp only: two_powi_le_iff)
  then have "2 powi (- (a + 1)) \<le> x + y"
    using assms inrng_pos [OF assms(2)] unfolding inrng_def by linarith
  ultimately show ?thesis
    unfolding inrng_def by simp
qed

lemma near_pos:
  assumes "near y x" "0 < x"
  shows "0 < y"
proof -
  have "0 < x * (1 - 1 / 2 ^ 53)"
    using assms(2) by (intro mult_pos_pos) simp_all
  with assms(1) show ?thesis
    unfolding near_def by linarith
qed

lemma near_inrng:
  assumes "near y x" "inrng K x"
  shows "inrng (K + 1) y"
proof -
  have p: "0 < x" using assms(2) by (rule inrng_pos)
  have "y \<le> x * (1 + 1 / 2 ^ 53)"
    using assms(1) by (simp add: near_def)
  also have "\<dots> \<le> x * 2"
    using p by (intro mult_left_mono) simp_all
  also have "\<dots> \<le> 2 powi K * 2"
    using assms(2) by (simp add: inrng_def)
  also have "\<dots> = 2 powi (K + 1)"
    by (simp add: power_int_add)
  finally have up: "y \<le> 2 powi (K + 1)" .
  have "(2::real) powi (- (K + 1)) + 2 powi (- (K + 1)) = 2 powi (- K)"
    using powi_double [of "- (K + 1)"] by simp
  then have "(2::real) powi (- (K + 1)) = 2 powi (- K) * (1 / 2)"
    by simp
  also have "\<dots> \<le> x * (1 / 2)"
    using assms(2) by (simp add: inrng_def)
  also have "\<dots> \<le> x * (1 - 1 / 2 ^ 53)"
    using p by (intro mult_left_mono) simp_all
  also have "\<dots> \<le> y"
    using assms(1) by (simp add: near_def)
  finally show ?thesis
    using up by (simp add: inrng_def)
qed

lemma rnd_near:
  assumes "2 powi (- 1022) \<le> x"
  shows "near (rnd x) x"
proof -
  define c where "c = x / 2 ^ 53"
  have "(0::real) < 2 powi (- 1022)"
    by simp
  with assms have "0 < x"
    by linarith
  then have "\<bar>rnd x - x\<bar> \<le> c"
    using rnd_error [of x] assms by (simp add: c_def)
  then have "x - c \<le> rnd x" "rnd x \<le> x + c"
    by linarith+
  moreover have "x * (1 - 1 / 2 ^ 53) = x - c" "x * (1 + 1 / 2 ^ 53) = x + c"
    by (simp_all add: c_def algebra_simps)
  ultimately show ?thesis
    unfolding near_def by (simp only: simp_thms)
qed

lemma to_double_inrng:
  assumes "inrng K x" "K \<le> 1022"
  shows "to_double s x = Finite (rnd x)" "near (rnd x) x"
proof -
  have "(2::real) powi (- 1022) \<le> 2 powi (- K)"
    using assms(2) by (simp only: two_powi_le_iff)
  with assms(1) have "2 powi (- 1022) \<le> x"
    by (simp add: inrng_def)
  then show n: "near (rnd x) x"
    by (rule rnd_near)
  from near_inrng [OF n assms(1)] have r: "inrng (K + 1) (rnd x)" .
  then have "0 < rnd x"
    by (rule inrng_pos)
  moreover have "rnd x \<le> 2 powi (K + 1)"
    using r by (simp add: inrng_def)
  moreover have "(2::real) powi (K + 1) < 2 powi 1024"
    using assms(2) by (simp only: two_powi_less_iff)
  ultimately show "to_double s x = Finite (rnd x)"
    by (simp add: to_double_def)
qed

lemma py_mul_inrng:
  assumes "inrng a x" "inrng b y" "a + b \<le> 1022"
  shows "py_mul (flt x) (flt y) = Returns (flt (rnd (x * y)))"
    and "near (rnd (x * y)) (x * y)"
    and "inrng (a + b + 1) (rnd (x * y))"
proof -
  have r: "inrng (a + b) (x * y)"
    using assms(1,2) by (rule inrng_mult)
  have s: "\<not> x < 0" "\<not> y < 0"
    using inrng_pos [OF assms(1)] inrng_pos [OF assms(2)] by simp_all
  show "py_mul (flt x) (flt y) = Returns (flt (rnd (x * y)))"
    by (simp add: ieee_mul_def s to_double_inrng(1) [OF r assms(3)])
  show n: "near (rnd (x * y)) (x * y)"
    using r assms(3) by (rule to_double_inrng(2))
  show "inrng (a + b + 1) (rnd (x * y))"
    using n r by (rule near_inrng)
qed

lemma py_div_inrng:
  assumes "inrng a x" "inrng b y" "a + b \<le> 1022"
  shows "py_div (flt x) (flt y) = Returns (flt (rnd (x / y)))"
    and "near (rnd (x / y)) (x / y)"
    and "inrng (a + b + 1) (rnd (x / y))"
proof -
  have r: "inrng (a + b) (x / y)"
    using assms(1,2) by (rule inrng_div)
  have s: "\<not> x < 0" "\<not> y < 0" "y \<noteq> 0"
    using inrng_pos [OF assms(1)] inrng_pos [OF assms(2)] by simp_all
  show "py_div (flt x) (flt y) = Returns (flt (rnd (x / y)))"
    by (simp add: ieee_div_def s to_double_inrng(1) [OF r assms(3)])
  show n: "near (rnd (x / y)) (x / y)"
    using r assms(3) by (rule to_double_inrng(2))
  show "inrng (a + b + 1) (rnd (x / y))"
    using n r by (rule near_inrng)
qed

lemma py_add_inrng:
  assumes "inrng a x" "inrng a y" "0 \<le> a" "a + 1 \<le> 1022"
  shows "py_add (flt x) (flt y) = Returns (flt (rnd (x + y)))"
    and "near (rnd (x + y)) (x + y)"
    and "inrng (a + 2) (rnd (x + y))"
proof -
  have r: "inrng (a + 1) (x + y)"
    using assms(1,2,3) by (rule inrng_add)
  have s: "x \<noteq> 0" "y \<noteq> 0"
    using inrng_pos [OF assms(1)] inrng_pos [OF assms(2)] by simp_all
  show "py_add (flt x) (flt y) = Returns (flt (rnd (x + y)))"
    by (simp add: ieee_add_def s to_double_inrng(1) [OF r assms(4)])
  show n: "near (rnd (x + y)) (x + y)"
    using r assms(4) by (rule to_double_inrng(2))
  from near_inrng [OF n r] show "inrng (a + 2) (rnd (x + y))"
    by (simp add: add.commute add.left_commute)
qed

lemma near_upper: "near y x \<Longrightarrow> y \<le> x * (1 + 1 / 2 ^ 53)"
  by (simp add: near_def)

lemma near_lower: "near y x \<Longrightarrow> x * (1 - 1 / 2 ^ 53) \<le> y"
  by (simp add: near_def)

lemma exact_budget_upper:
  fixes q a d x2 r b x1 p1 p2 m :: real
  assumes pos: "0 < q" "0 < p1" "0 < p2" "0 < m"
    and n: "near a (q * p2)" "near d (a + p2)" "near x2 (m / d)"
           "near r (p2 / p1)" "near b (q * r)" "near x1 (b * x2)"
  shows "(x1 * p1 + x2 * p2) * (1 - 1 / 2 ^ 53) ^ 2 \<le> m * (1 + 1 / 2 ^ 53) ^ 4"
proof -
  define U :: real where "U = 1 + 1 / 2 ^ 53"
  define L :: real where "L = 1 - 1 / 2 ^ 53"
  have U: "1 \<le> U" "0 < U" and L: "0 < L" "L \<le> 1"
    by (simp_all add: U_def L_def)
  have a: "0 < a" using n(1) pos by (intro near_pos [of a "q * p2"]) simp_all
  have d: "0 < d" using n(2) a pos by (intro near_pos [of d "a + p2"]) simp_all
  have x2: "0 < x2" using n(3) d pos by (intro near_pos [of x2 "m / d"]) simp_all
  have r: "0 < r" using n(4) pos by (intro near_pos [of r "p2 / p1"]) simp_all
  have b: "0 < b" using n(5) r pos by (intro near_pos [of b "q * r"]) simp_all
  have x1u: "x1 \<le> b * x2 * U" and bu: "b \<le> q * r * U" and ru: "r \<le> p2 / p1 * U"
    and x2u: "x2 \<le> m / d * U"
    using n(6,5,4,3) by (simp_all only: near_upper U_def)
  have al: "q * p2 * L \<le> a" and dl: "(a + p2) * L \<le> d"
    using n(1,2) by (simp_all only: near_lower L_def)
  have "r * p1 \<le> p2 / p1 * U * p1"
    using ru pos(2) by (intro mult_right_mono) simp_all
  then have A: "r * p1 \<le> p2 * U"
    using pos(2) by simp
  have "x1 * p1 \<le> b * x2 * U * p1"
    using x1u pos(2) by (intro mult_right_mono) simp_all
  also have "\<dots> = b * (x2 * U * p1)"
    by simp
  also have "\<dots> \<le> q * r * U * (x2 * U * p1)"
    using bu x2 U(2) pos(2) by (intro mult_right_mono) simp_all
  also have "\<dots> = r * p1 * (q * U * U * x2)"
    by simp
  also have "\<dots> \<le> p2 * U * (q * U * U * x2)"
    using A pos(1) U(2) x2 by (intro mult_right_mono) simp_all
  also have "\<dots> = U ^ 3 * (q * p2 * x2)"
    by (simp add: power3_eq_cube)
  finally have B: "x1 * p1 \<le> U ^ 3 * (q * p2 * x2)" .
  have "1 \<le> U ^ 3"
    using U(1) by (rule one_le_power)
  then have "1 * (p2 * x2) \<le> U ^ 3 * (p2 * x2)"
    using pos(3) x2 by (intro mult_right_mono) simp_all
  with B have "x1 * p1 + x2 * p2 \<le> U ^ 3 * (q * p2 * x2) + U ^ 3 * (p2 * x2)"
    by (simp add: mult.commute)
  then have C: "x1 * p1 + x2 * p2 \<le> U ^ 3 * x2 * (q * p2 + p2)"
    by (simp add: algebra_simps)
  have "p2 * L \<le> p2 * 1"
    using L(2) pos(3) by (intro mult_left_mono) simp_all
  then have "q * p2 * L + p2 * L \<le> a + p2"
    using al by simp
  then have "(q * p2 * L + p2 * L) * L \<le> (a + p2) * L"
    using L(1) by (intro mult_right_mono) simp_all
  with dl have D: "(q * p2 + p2) * L ^ 2 \<le> d"
    by (simp add: algebra_simps power2_eq_square)
  have "x2 * d \<le> m / d * U * d"
    using x2u d by (intro mult_right_mono) simp_all
  then have E: "x2 * d \<le> m * U"
    using d by simp
  have "(x1 * p1 + x2 * p2) * L ^ 2 \<le> U ^ 3 * x2 * (q * p2 + p2) * L ^ 2"
    using C L(1) by (intro mult_right_mono) simp_all
  also have "\<dots> = U ^ 3 * x2 * ((q * p2 + p2) * L ^ 2)"
    by simp
  also have "\<dots> \<le> U ^ 3 * x2 * d"
    using D U(2) x2 by (intro mult_left_mono) simp_all
  also have "\<dots> = U ^ 3 * (x2 * d)"
    by simp
  also have "\<dots> \<le> U ^ 3 * (m * U)"
    using E U(2) by (intro mult_left_mono) simp_all
  also have "\<dots> = m * U ^ 4"
    by (simp add: power3_eq_cube power4_eq_xxxx)
  finally show ?thesis
    by (simp only: U_def L_def)
qed

lemma exact_budget_lower:
  fixes q a d x2 r b x1 p1 p2 m :: real
  assumes pos: "0 < q" "0 < p1" "0 < p2" "0 < m"
    and n: "near a (q * p2)" "near d (a + p2)" "near x2 (m / d)"
           "near r (p2 / p1)" "near b (q * r)" "near x1 (b * x2)"
  shows "m * (1 - 1 / 2 ^ 53) ^ 4 \<le> (x1 * p1 + x2 * p2) * (1 + 1 / 2 ^ 53) ^ 2"
proof -
  define U :: real where "U = 1 + 1 / 2 ^ 53"
  define L :: real where "L = 1 - 1 / 2 ^ 53"
  have U: "1 \<le> U" "0 < U" and L: "0 < L" "L \<le> 1"
    by (simp_all add: U_def L_def)
  have a: "0 < a" using n(1) pos by (intro near_pos [of a "q * p2"]) simp_all
  have d: "0 < d" using n(2) a pos by (intro near_pos [of d "a + p2"]) simp_all
  have x2: "0 < x2" using n(3) d pos by (intro near_pos [of x2 "m / d"]) simp_all
  have r: "0 < r" using n(4) pos by (intro near_pos [of r "p2 / p1"]) simp_all
  have b: "0 < b" using n(5) r pos by (intro near_pos [of b "q * r"]) simp_all
  have x1l: "b * x2 * L \<le> x1" and bl: "q * r * L \<le> b" and rl: "p2 / p1 * L \<le> r"
    and x2l: "m / d * L \<le> x2"
    using n(6,5,4,3) by (simp_all only: near_lower L_def)
  have au: "a \<le> q * p2 * U" and du: "d \<le> (a + p2) * U"
    using n(1,2) by (simp_all only: near_upper U_def)
  have "p2 / p1 * L * p1 \<le> r * p1"
    using rl pos(2) by (intro mult_right_mono) simp_all
  then have A: "p2 * L \<le> r * p1"
    using pos(2) by simp
  have "L ^ 3 * (q * p2 * x2) = p2 * L * (q * L * L * x2)"
    by (simp add: power3_eq_cube)
  also have "\<dots> \<le> r * p1 * (q * L * L * x2)"
    using A pos(1) L(1) x2 by (intro mult_right_mono) simp_all
  also have "\<dots> = q * r * L * (x2 * L * p1)"
    by simp
  also have "\<dots> \<le> b * (x2 * L * p1)"
    using bl x2 L(1) pos(2) by (intro mult_right_mono) simp_all
  also have "\<dots> = b * x2 * L * p1"
    by simp
  also have "\<dots> \<le> x1 * p1"
    using x1l pos(2) by (intro mult_right_mono) simp_all
  finally have B: "L ^ 3 * (q * p2 * x2) \<le> x1 * p1" .
  have "L ^ 3 \<le> 1"
    using L by (intro power_le_one) simp_all
  then have "L ^ 3 * (p2 * x2) \<le> 1 * (p2 * x2)"
    using pos(3) x2 by (intro mult_right_mono) simp_all
  with B have "L ^ 3 * (q * p2 * x2) + L ^ 3 * (p2 * x2) \<le> x1 * p1 + x2 * p2"
    by (simp add: mult.commute)
  then have C: "L ^ 3 * x2 * (q * p2 + p2) \<le> x1 * p1 + x2 * p2"
    by (simp add: algebra_simps)
  have "p2 * 1 \<le> p2 * U"
    using U(1) pos(3) by (intro mult_left_mono) simp_all
  then have "a + p2 \<le> q * p2 * U + p2 * U"
    using au by simp
  then have "(a + p2) * U \<le> (q * p2 * U + p2 * U) * U"
    using U(2) by (intro mult_right_mono) simp_all
  with du have D: "d \<le> (q * p2 + p2) * U ^ 2"
    by (simp add: algebra_simps power2_eq_square)
  have "m / d * L * d \<le> x2 * d"
    using x2l d by (intro mult_right_mono) simp_all
  then have E: "m * L \<le> x2 * d"
    using d by simp
  have "m * L ^ 4 = L ^ 3 * (m * L)"
    by (simp add: power3_eq_cube power4_eq_xxxx)
  also have "\<dots> \<le> L ^ 3 * (x2 * d)"
    using E L(1) by (intro mult_left_mono) simp_all
  also have "\<dots> = L ^ 3 * x2 * d"
    by simp
  also have "\<dots> \<le> L ^ 3 * x2 * ((q * p2 + p2) * U ^ 2)"
    using D L(1) x2 by (intro mult_left_mono) simp_all
  also have "\<dots> = L ^ 3 * x2 * (q * p2 + p2) * U ^ 2"
    by simp
  also have "\<dots> \<le> (x1 * p1 + x2 * p2) * U ^ 2"
    using C U(2) by (intro mult_right_mono) simp_all
  finally show ?thesis
    by (simp only: U_def L_def)
qed

lemma tol_exact_upper: "((1::real) + 1 / 2 ^ 53) ^ 4 \<le> (1 + 1 / 2 ^ 50) * (1 - 1 / 2 ^ 53) ^ 2"
  by (simp add: power_divide divide_simps)

lemma tol_upper: "((1::real) + 1 / 2 ^ 53) ^ 6 \<le> (1 + 1 / 2 ^ 49) * (1 - 1 / 2 ^ 53) ^ 2"
  by (simp add: power_divide divide_simps)

lemma tol_lower: "((1::real) - 1 / 2 ^ 49) * (1 + 1 / 2 ^ 53) ^ 2 \<le> (1 - 1 / 2 ^ 53) ^ 6"
  by (simp add: power_divide divide_simps)

lemma tol_ratio_upper: "((1::real) + 1 / 2 ^ 53) ^ 5 \<le> (1 + 1 / 2 ^ 49) * (1 - 1 / 2 ^ 53) ^ 5"
  by (simp add: power_divide divide_simps)

lemma tol_ratio_lower: "((1::real) - 1 / 2 ^ 49) * (1 + 1 / 2 ^ 53) ^ 5 \<le> (1 - 1 / 2 ^ 53) ^ 5"
  by (simp add: power_divide divide_simps)

lemma tol_exact_lower: "((1::real) - 1 / 2 ^ 50) * (1 + 1 / 2 ^ 53) ^ 2 \<le> (1 - 1 / 2 ^ 53) ^ 4"
  by (simp add: power_divide divide_simps)

lemma abs_le_from_factors:
  fixes s m t lo hi :: real
  assumes "0 < m" "m * lo \<le> s" "s \<le> m * hi" "1 - t \<le> lo" "hi \<le> 1 + t"
  shows "\<bar>s - m\<bar> \<le> m * t"
proof -
  have "m * (1 - t) \<le> m * lo" "m * hi \<le> m * (1 + t)"
    using assms(1,4,5) by (simp_all add: mult_left_mono)
  with assms(2,3) have "m * (1 - t) \<le> s" "s \<le> m * (1 + t)"
    by linarith+
  then have "m - m * t \<le> s" "s \<le> m + m * t"
    by (simp_all only: right_diff_distrib distrib_left mult_1_right)
  then show ?thesis
    by linarith
qed

lemma py_div_by_zero:
  assumes "zero_number b"
  shows "py_div a b =
           (if as_float a = Raises OverflowError \<and> b \<noteq> PyInt 0 then Raises OverflowError
            else Raises ZeroDivisionError)"
proof (cases a)
  case (PyInt i)
  show ?thesis
  proof (cases "b = PyInt 0")
    case True
    then show ?thesis by (simp add: PyInt)
  next
    case False
    with assms have "b = PyFloat (Finite 0) \<or> b = PyFloat NegZero"
      by (simp add: zero_number_def)
    then show ?thesis
      by (auto simp add: PyInt finite_or_overflow_def)
  qed
next
  case (PyFloat x)
  from assms show ?thesis
    by (auto simp add: PyFloat zero_number_def to_double_zero finite_or_overflow_def)
qed

lemma find_optimal_zero_beta:
  assumes "zero_number beta"
  shows "find_optimal p1 p2 alpha beta mo =
           (if as_float alpha = Raises OverflowError \<and> beta \<noteq> PyInt 0 then Raises OverflowError
            else Raises ZeroDivisionError)"
  unfolding find_optimal_def Let_def py_div_by_zero [OF assms] by simp

lemma to_double_int: 
  assumes "i \<noteq> 0" "\<bar>i\<bar> < 2 ^ 53"
  shows "to_double s (of_int i) = Finite (of_int i)"
proof -
  have r: "rnd (of_int i) = of_int i"
    using rnd_scaled [of i 0] assms by simp
  have "\<bar>(of_int i :: real)\<bar> < 2 ^ 53"
    using assms(2) by (metis of_int_abs of_int_less_iff of_int_numeral of_int_power)
  also have "\<dots> < (2::real) ^ 1024"
    by simp
  finally have "\<bar>(of_int i :: real)\<bar> < 2 ^ 1024" .
  then have "\<not> 2 ^ 1024 \<le> (of_int i :: real)" "\<not> (of_int i :: real) \<le> - (2 ^ 1024)"
    by linarith+
  then show ?thesis
    using assms(1) by (simp add: to_double_def r)
qed

lemma as_float_int:
  assumes "\<bar>i\<bar> < 2 ^ 53"
  shows "as_float (PyInt i) = Returns (Finite (of_int i))"
proof (cases "i = 0")
  case True
  then show ?thesis
    by (simp add: to_double_zero finite_or_overflow_def)
next
  case False
  then show ?thesis
    using assms by (simp add: to_double_int finite_or_overflow_def)
qed

lemma zero_income_bundle:
  "find_optimal (PyInt 1) (PyInt 1) (PyInt 1) (PyInt 1) (Some (PyInt 0))
     = Returns (flt 0, flt 0, flt 0)"
proof -
  have one: "to_double False (1::real) = Finite 1" "to_double False (2::real) = Finite 2"
    using to_double_int [of 1 False] to_double_int [of 2 False] by simp_all
  have q: "py_div (PyInt 1) (PyInt 1) = Returns (flt 1)"
    by (simp add: one finite_or_overflow_def)
  have a: "py_mul (flt 1) (PyInt 1) = Returns (flt 1)"
    by (simp add: one finite_or_overflow_def ieee_mul_def)
  have d: "py_add (flt 1) (PyInt 1) = Returns (flt 2)"
    by (simp add: one finite_or_overflow_def ieee_add_def)
  have x2: "py_div (PyInt 0) (flt 2) = Returns (flt 0)"
    by (simp add: to_double_zero finite_or_overflow_def ieee_div_def)
  have b: "py_mul (flt 1) (flt 1) = Returns (flt 1)"
    by (simp add: one ieee_mul_def)
  have x1: "py_mul (flt 1) (flt 0) = Returns (flt 0)"
    by (simp add: to_double_zero ieee_mul_def)
  have p: "py_pow (flt 0) (PyInt 1) = Returns (flt 0)"
    by (simp add: one finite_or_overflow_def float_pow_zero_one)
  have z: "py_mul (flt 0) (flt 0) = Returns (flt 0)"
    by (simp add: to_double_zero ieee_mul_def)
  have u: "utility (flt 0) (PyInt 1) (flt 0) (PyInt 1) = Returns (flt 0)"
    by (simp only: utility_def p z and_then.simps)
  show ?thesis
    unfolding find_optimal_def Let_def
    by (simp only: option.case q a d x2 b x1 u and_then.simps)
qed

lemma powr_inrng_le_one:
  assumes "inrng K x" "0 < y" "y \<le> 1" "0 \<le> K"
  shows "inrng K (x powr y)"
proof (cases "1 \<le> x")
  case True
  have e: "x powr 0 = 1" "x powr 1 = x"
    using True by simp_all
  have "x powr 0 \<le> x powr y" "x powr y \<le> x powr 1"
    using True assms(2,3) by (intro powr_mono; simp)+
  then have "1 \<le> x powr y" "x powr y \<le> x"
    by (simp_all only: e)
  moreover have "(2::real) powi (- K) \<le> 2 powi 0"
    using assms(4) by (simp only: two_powi_le_iff)
  ultimately show ?thesis
    using assms(1) unfolding inrng_def by simp
next
  case False
  have p: "0 < x" using assms(1) by (rule inrng_pos)
  have e: "x powr 0 = 1" "x powr 1 = x"
    using p by simp_all
  have "x powr 1 \<le> x powr y" "x powr y \<le> x powr 0"
    using False p assms(2,3) by (intro powr_mono'; simp)+
  then have "x \<le> x powr y" "x powr y \<le> 1"
    by (simp_all only: e)
  moreover have "(2::real) powi 0 \<le> 2 powi K"
    using assms(4) by (simp only: two_powi_le_iff)
  ultimately show ?thesis
    using assms(1) unfolding inrng_def by simp
qed

lemma float_pow_inrng_le_one:
  assumes "inrng K x" "0 < y" "y \<le> 1" "0 \<le> K" "K \<le> 1022"
  shows "\<exists>z. float_pow (Finite x) (Finite y) = Returns (Finite z) \<and> inrng (K + 1) z"
proof (cases "x = 1")
  case True
  have "inrng (K + 1) 1"
    using assms(4) two_powi_le_iff [of "- (K + 1)" 0] two_powi_le_iff [of 0 "K + 1"]
    by (simp add: inrng_def)
  then show ?thesis
    using True assms(2) by (simp add: float_pow_def)
next
  case False
  have p: "0 < x" using assms(1) by (rule inrng_pos)
  have r: "inrng K (x powr y)"
    using assms(1-4) by (rule powr_inrng_le_one)
  have "float_pow (Finite x) (Finite y) = Returns (Finite (rnd (x powr y)))"
    using False p assms(2)
    by (simp add: float_pow_def to_double_inrng(1) [OF r assms(5)] finite_or_overflow_def)
  moreover have "inrng (K + 1) (rnd (x powr y))"
    using to_double_inrng(2) [OF r assms(5)] r by (rule near_inrng)
  ultimately show ?thesis
    by blast
qed

lemma utility_returns_le_one:
  assumes "inrng 809 x1" "inrng 405 x2" "0 < alpha" "alpha \<le> 1" "0 < beta" "beta \<le> 1"
  shows "\<exists>u. utility (flt x1) (flt alpha) (flt x2) (flt beta) = Returns (PyFloat u)"
proof -
  from float_pow_inrng_le_one [OF assms(1,3,4)] obtain a
    where a: "float_pow (Finite x1) (Finite alpha) = Returns (Finite a)" by auto
  from float_pow_inrng_le_one [OF assms(2,5,6)] obtain b
    where b: "float_pow (Finite x2) (Finite beta) = Returns (Finite b)" by auto
  show ?thesis
    by (simp add: utility_def a b)
qed

lemma to_double_two: "to_double s 2 = Finite 2"
  using to_double_int [of 2 s] by simp

lemma int_inrng:
  assumes "1 \<le> i" "i < 2 ^ 53"
  shows "inrng 100 (of_int i)"
proof -
  have "(1::real) \<le> of_int i"
    using assms(1) by simp
  moreover have "(of_int i :: real) < 2 ^ 53"
    using assms(2) by (metis of_int_less_iff of_int_numeral of_int_power)
  moreover have "(2::real) powi (- 100) \<le> 1" "(2::real) ^ 53 \<le> 2 powi 100"
    by simp_all
  ultimately show ?thesis
    unfolding inrng_def by linarith
qed

lemma int_as_float:
  assumes "1 \<le> i" "i < 2 ^ 53"
  shows "finite_or_overflow (to_double s (of_int i)) = Returns (Finite (of_int i))"
  using to_double_int [of i s] assms by (simp add: finite_or_overflow_def)

lemma ordinary_cases:
  assumes "ordinary n"
  obtains i where "n = PyInt i" "1 \<le> i" "i < 2 ^ 53"
    | x where "n = flt x" "inrng 100 x"
proof (cases n)
  case (PyInt i)
  with assms that(1) show ?thesis by simp
next
  case (PyFloat d)
  with assms that(2) show ?thesis by (cases d) simp_all
qed

lemma ordinary_inrng:
  assumes "ordinary n"
  shows "inrng 100 (value_of n)"
  using assms by (cases rule: ordinary_cases) (simp_all add: int_inrng)

lemma py_mul_float_ordinary:
  assumes "ordinary b"
  shows "py_mul (PyFloat x) b = py_mul (PyFloat x) (flt (value_of b))"
  using assms by (cases rule: ordinary_cases) (simp_all add: int_as_float)

lemma py_add_float_ordinary:
  assumes "ordinary b"
  shows "py_add (PyFloat x) b = py_add (PyFloat x) (flt (value_of b))"
  using assms by (cases rule: ordinary_cases) (simp_all add: int_as_float)

lemma py_pow_float_ordinary:
  assumes "ordinary b"
  shows "py_pow (PyFloat x) b = py_pow (PyFloat x) (flt (value_of b))"
  using assms by (cases rule: ordinary_cases) (simp_all add: int_as_float)

lemma py_div_ordinary_float:
  assumes "ordinary a"
  shows "py_div a (PyFloat y) = py_div (flt (value_of a)) (PyFloat y)"
  using assms by (cases rule: ordinary_cases) (simp_all add: int_as_float)

lemma py_div_float_ordinary:
  assumes "ordinary b"
  shows "py_div (PyFloat x) b = py_div (PyFloat x) (flt (value_of b))"
  using assms by (cases rule: ordinary_cases) (simp_all add: int_as_float)

lemma py_div_ordinary:
  assumes "ordinary a" "ordinary b"
  shows "py_div a b = py_div (flt (value_of a)) (flt (value_of b))"
  using assms(2)
proof (cases rule: ordinary_cases)
  case (2 y)
  show ?thesis
    unfolding 2(1) value_of.simps fval.simps by (rule py_div_ordinary_float [OF assms(1)])
next
  case j: (1 j)
  from assms(1) show ?thesis
  proof (cases rule: ordinary_cases)
    case (2 x)
    show ?thesis
      unfolding 2(1) value_of.simps fval.simps by (rule py_div_float_ordinary [OF assms(2)])
  next
    case i: (1 i)
    have "inrng (100 + 100) (of_int i / of_int j)"
      using int_inrng [OF i(2,3)] int_inrng [OF j(2,3)] by (rule inrng_div)
    then have "to_double s (of_int i / of_int j) = Finite (rnd (of_int i / of_int j))" for s
      by (rule to_double_inrng(1)) simp
    then show ?thesis
      using i j by (simp add: finite_or_overflow_def ieee_div_def)
  qed
qed

lemma bundle_chain:
  assumes "ordinary alpha" "ordinary beta" "ordinary p1" "ordinary p2" "ordinary m"
  obtains q a d x2 r b x1 where
    "find_optimal p1 p2 alpha beta (Some m)
       = and_then (utility (flt x1) alpha (flt x2) beta) (\<lambda>u. Returns (flt x1, flt x2, u))"
    and "near q (value_of alpha / value_of beta)" "near a (q * value_of p2)"
        "near d (a + value_of p2)" "near x2 (value_of m / d)"
        "near r (value_of p2 / value_of p1)" "near b (q * r)" "near x1 (b * x2)"
    and "inrng 201 q" "inrng 302 a" "inrng 304 d" "inrng 405 x2" "inrng 201 r" "inrng 403 b"
        "inrng 809 x1"
    and "x2 = rnd (value_of m
                / rnd (rnd (rnd (value_of alpha / value_of beta) * value_of p2) + value_of p2))"
        "x1 = rnd (rnd (rnd (value_of alpha / value_of beta) * rnd (value_of p2 / value_of p1))
                * x2)"
proof -
  note i = ordinary_inrng [OF assms(1)] ordinary_inrng [OF assms(2)] ordinary_inrng [OF assms(3)]
    ordinary_inrng [OF assms(4)] ordinary_inrng [OF assms(5)]
  define q where "q = rnd (value_of alpha / value_of beta)"
  define a where "a = rnd (q * value_of p2)"
  define d where "d = rnd (a + value_of p2)"
  define x2 where "x2 = rnd (value_of m / d)"
  define r where "r = rnd (value_of p2 / value_of p1)"
  define b where "b = rnd (q * r)"
  define x1 where "x1 = rnd (b * x2)"
  have q: "py_div alpha beta = Returns (flt q)" "near q (value_of alpha / value_of beta)"
      "inrng 201 q"
    unfolding q_def py_div_ordinary [OF assms(1,2)] using py_div_inrng [OF i(1,2)] by simp_all
  have a: "py_mul (flt q) p2 = Returns (flt a)" "near a (q * value_of p2)" "inrng 302 a"
    unfolding a_def py_mul_float_ordinary [OF assms(4)] using py_mul_inrng [OF q(3) i(4)]
    by simp_all
  have p2': "inrng 302 (value_of p2)"
    using i(4) by (rule inrng_mono) simp
  have d: "py_add (flt a) p2 = Returns (flt d)" "near d (a + value_of p2)" "inrng 304 d"
    unfolding d_def py_add_float_ordinary [OF assms(4)] using py_add_inrng [OF a(3) p2']
    by simp_all
  have x2: "py_div m (flt d) = Returns (flt x2)" "near x2 (value_of m / d)" "inrng 405 x2"
    unfolding x2_def py_div_ordinary_float [OF assms(5)] using py_div_inrng [OF i(5) d(3)]
    by simp_all
  have r: "py_div p2 p1 = Returns (flt r)" "near r (value_of p2 / value_of p1)" "inrng 201 r"
    unfolding r_def py_div_ordinary [OF assms(4,3)] using py_div_inrng [OF i(4,3)] by simp_all
  have b: "py_mul (flt q) (flt r) = Returns (flt b)" "near b (q * r)" "inrng 403 b"
    unfolding b_def using py_mul_inrng [OF q(3) r(3)] by simp_all
  have x1: "py_mul (flt b) (flt x2) = Returns (flt x1)" "near x1 (b * x2)" "inrng 809 x1"
    unfolding x1_def using py_mul_inrng [OF b(3) x2(3)] by simp_all
  have "find_optimal p1 p2 alpha beta (Some m)
           = and_then (utility (flt x1) alpha (flt x2) beta) (\<lambda>u. Returns (flt x1, flt x2, u))"
    unfolding find_optimal_def Let_def
    by (simp only: option.case q(1) a(1) d(1) x2(1) r(1) b(1) x1(1) and_then.simps)
  moreover have "x2 = rnd (value_of m
                / rnd (rnd (rnd (value_of alpha / value_of beta) * value_of p2) + value_of p2))"
    by (simp only: x2_def d_def a_def q_def)
  moreover have "x1 = rnd (rnd (rnd (value_of alpha / value_of beta)
                * rnd (value_of p2 / value_of p1)) * x2)"
    by (simp only: x1_def b_def q_def r_def)
  ultimately show thesis
    using q(2) a(2) d(2) x2(2) r(2) b(2) x1(2) q(3) a(3) d(3) x2(3) r(3) b(3) x1(3)
    by (intro that)
qed

lemma utility_returns_ordinary:
  assumes "inrng 809 x1" "inrng 405 x2" "ordinary alpha" "ordinary beta"
    and "value_of alpha \<le> 1" "value_of beta \<le> 1"
  shows "\<exists>u. utility (flt x1) alpha (flt x2) beta = Returns (PyFloat u)"
proof -
  have "utility (flt x1) alpha (flt x2) beta
          = utility (flt x1) (flt (value_of alpha)) (flt x2) (flt (value_of beta))"
    by (simp only: utility_def py_pow_float_ordinary [OF assms(3)]
        py_pow_float_ordinary [OF assms(4)])
  then show ?thesis
    using utility_returns_le_one [OF assms(1,2) inrng_pos [OF ordinary_inrng [OF assms(3)]]
        assms(5) inrng_pos [OF ordinary_inrng [OF assms(4)]] assms(6)]
    by simp
qed

lemma nan_bundle_gen:
  assumes "512 \<le> k" "k \<le> 1023"
  shows "find_optimal (flt 1) (flt 1) (flt (2 powi k)) (flt (2 powi (- k))) (Some (flt 1))
           = Returns (PyFloat NaN, flt 0, PyFloat NaN)"
proof -
  have "(2::real) powi k / 2 powi (- k) = 2 powi (k + k)"
    using power_int_diff [of "2::real" k "- k"] by simp
  moreover have "to_double False ((2::real) powi (k + k)) = PosInf"
    using assms by (intro to_double_powi_huge) simp
  ultimately have q: "py_div (flt (2 powi k)) (flt (2 powi (- k))) = Returns (PyFloat PosInf)"
    by (simp add: ieee_div_def two_powi_not_neg)
  have a: "py_mul (PyFloat PosInf) (flt 1) = Returns (PyFloat PosInf)"
    by (simp add: ieee_mul_def)
  have d: "py_add (PyFloat PosInf) (flt 1) = Returns (PyFloat PosInf)"
    by (simp add: ieee_add_def)
  have x2: "py_div (flt 1) (PyFloat PosInf) = Returns (flt 0)"
    by (simp add: ieee_div_def)
  have r: "py_div (flt 1) (flt 1) = Returns (flt 1)"
    by (simp add: ieee_div_def to_double_one)
  have x1: "py_mul (PyFloat PosInf) (flt 0) = Returns (PyFloat NaN)"
    by (simp add: ieee_mul_def)
  have p1: "py_pow (PyFloat NaN) (flt (2 powi k)) = Returns (PyFloat NaN)"
    by (simp add: float_pow_def)
  have p2: "py_pow (flt 0) (flt (2 powi (- k))) = Returns (flt 0)"
    by (simp add: float_pow_def two_powi_not_neg)
  have m: "py_mul (PyFloat NaN) (flt 0) = Returns (PyFloat NaN)"
    by (simp add: ieee_mul_def)
  have u: "utility (PyFloat NaN) (flt (2 powi k)) (flt 0) (flt (2 powi (- k)))
             = Returns (PyFloat NaN)"
    by (simp only: utility_def p1 p2 m and_then.simps)
  show ?thesis
    unfolding find_optimal_def Let_def
    by (simp only: option.case q a d x2 r x1 u and_then.simps)
qed

lemma underflow_spent_gen:
  assumes "1 \<le> k" "k \<le> 1023"
  shows "spent (flt (2 powi k)) (flt (2 powi (- k))) (flt 0) (flt (2 powi (k - 1)))
           = Returns (flt (1 / 2))"
proof -
  have a: "py_mul (flt 0) (flt (2 powi k)) = Returns (flt 0)"
    by (simp add: ieee_mul_def to_double_zero two_powi_not_neg)
  have h: "(2::real) powi (k - 1) * 2 powi (- k) = 1 / 2"
    using power_int_add [of "2::real" "k - 1" "- k"] by simp
  have t: "to_double False (1 / 2) = Finite (1 / 2)"
    using to_double_powi [of "- 1" False] by simp
  have b: "py_mul (flt (2 powi (k - 1))) (flt (2 powi (- k))) = Returns (flt (1 / 2))"
    by (simp add: ieee_mul_def two_powi_not_neg h t)
  have c: "py_add (flt 0) (flt (1 / 2)) = Returns (flt (1 / 2))"
    by (simp add: ieee_add_def t)
  show ?thesis
    by (simp only: spent_def a b c and_then.simps)
qed

lemma underflow_isoquant: "isoquant (flt 0) (flt 1) (flt 1) (flt 0) = Raises ZeroDivisionError"
  by (simp add: isoquant_def float_pow_zero_one)

lemma underflow_budgetconst_gen:
  assumes "512 \<le> k" "k \<le> 1023"
  shows "budgetconst (flt 1) (flt (2 powi k)) (flt (2 powi (- k))) (flt 0)
           = Returns (PyFloat NaN)"
proof -
  have "(1::real) / 2 powi (- k) = 2 powi k"
    by (simp add: power_int_minus field_simps)
  then have a: "py_div (flt 1) (flt (2 powi (- k))) = Returns (flt (2 powi k))"
    using assms by (simp add: ieee_div_def to_double_powi two_powi_not_neg)
  have "(2::real) powi k / 2 powi (- k) = 2 powi (k + k)"
    using power_int_diff [of "2::real" k "- k"] by simp
  moreover have "to_double False ((2::real) powi (k + k)) = PosInf"
    using assms by (intro to_double_powi_huge) simp
  ultimately have b: "py_div (flt (2 powi k)) (flt (2 powi (- k))) = Returns (PyFloat PosInf)"
    by (simp add: ieee_div_def two_powi_not_neg)
  have c: "py_mul (PyFloat PosInf) (flt 0) = Returns (PyFloat NaN)"
    by (simp add: ieee_mul_def)
  have d: "py_sub (flt (2 powi k)) (PyFloat NaN) = Returns (PyFloat NaN)"
    by (simp add: ieee_sub_def ieee_add_def)
  show ?thesis
    by (simp only: budgetconst_def a b c d and_then.simps)
qed

lemma isoquant_underflow_gen:
  assumes "538 \<le> k"
  shows "isoquant (flt (2 powi (- k))) (flt 2) (flt 1) (flt 1) = Raises ZeroDivisionError"
proof -
  have "((2::real) powi (- k)) powr 2 = (2 powi (- k)) ^ 2"
    by (simp add: powr_numeral)
  also have "\<dots> = 2 powi (- k - k)"
    using power_int_add [of "2::real" "- k" "- k"] by (simp add: power2_eq_square)
  finally have e: "((2::real) powi (- k)) powr 2 = 2 powi (- k - k)" .
  have "(2::real) powi (- k - k) \<le> 2 powi (- 1075)"
    using assms by (simp only: two_powi_le_iff)
  then have "to_double False (((2::real) powi (- k)) powr 2) = Finite 0"
    unfolding e by (simp add: to_double_tiny)
  then have "float_pow (Finite (2 powi (- k))) (Finite 2) = Returns (Finite 0)"
    using assms by (simp add: float_pow_def two_powi_not_neg two_powi_eq_one_iff
        finite_or_overflow_def)
  then show ?thesis
    by (simp add: isoquant_def)
qed

lemma overflow_ints:
  "find_optimal (PyInt 1) (PyInt 1) (PyInt 1024) (PyInt 1024) (Some (PyInt 4))
     = Raises OverflowError"
proof -
  have o: "ordinary (PyInt 1)" "ordinary (PyInt 1024)" "ordinary (PyInt 4)"
    by simp_all
  have r: "rnd 1 = 1" "rnd 2 = 2"
    using rnd_powi [of 0] rnd_powi [of 1] by simp_all
  from o(2,2,1,1,3) obtain x2 x1 where
    call: "find_optimal (PyInt 1) (PyInt 1) (PyInt 1024) (PyInt 1024) (Some (PyInt 4))
       = and_then (utility (flt x1) (PyInt 1024) (flt x2) (PyInt 1024))
           (\<lambda>u. Returns (flt x1, flt x2, u))"
    and x: "x2 = rnd (value_of (PyInt 4)
                / rnd (rnd (rnd (value_of (PyInt 1024) / value_of (PyInt 1024))
                  * value_of (PyInt 1)) + value_of (PyInt 1)))"
        "x1 = rnd (rnd (rnd (value_of (PyInt 1024) / value_of (PyInt 1024))
                  * rnd (value_of (PyInt 1) / value_of (PyInt 1))) * x2)"
    by (rule bundle_chain)
  have x': "x2 = 2" "x1 = 2"
    using x by (simp_all add: r)
  have "(2::real) powr 1024 = 2 powi 1024"
    by (simp add: powr_numeral)
  then have "to_double False ((2::real) powr 1024) = PosInf"
    using to_double_powi_huge [of 1024 False] by simp
  then have "float_pow (Finite 2) (Finite 1024) = Raises OverflowError"
    by (simp add: float_pow_def finite_or_overflow_def)
  then have "py_pow (flt 2) (PyInt 1024) = Raises OverflowError"
    using py_pow_float_ordinary [OF o(2), of "Finite 2"] by simp
  then show ?thesis
    unfolding call x' by (simp add: utility_def)
qed

section \<open>The claims\<close>

subsection \<open>C1: the closed form\<close>

text \<open>
  C1, as the claim states it, fails: positive inputs need not give a result at all. On
  \<^verbatim>\<open>find_optimal(1, 1, 1024, 1024, 4)\<close> the bundle is \<open>x1 = x2 = 2.0\<close> and the utility
  \<open>2.0 ** 1024\<close> raises \<^verbatim>\<open>OverflowError\<close>.
\<close>

theorem find_optimal_overflows:
  "find_optimal (PyInt 1) (PyInt 1) (PyInt 1024) (PyInt 1024) (Some (PyInt 4))
     = Raises OverflowError"
  by (rule overflow_ints)

text \<open>
  C1, as the code has it. For ordinary inputs (floats between \<open>2 ^ - 100\<close> and \<open>2 ^ 100\<close>,
  ints between 1 and \<open>2 ^ 53\<close>) \<^verbatim>\<open>find_optimal\<close> evaluates the closed form in double
  arithmetic, rounding after every operation: \<open>x2\<close> is the rounded
  \<open>m / ((alpha/beta) * p2 + p2)\<close> and \<open>x1\<close> the rounded \<open>(alpha/beta) * (p2/p1) * x2\<close>, each
  within a relative error of \<open>2 ^ - 49\<close> and \<open>2 ^ - 48\<close> of the exact closed form. The call
  then is the call \<^verbatim>\<open>utility(x1, alpha, x2, beta)\<close>: it returns \<open>(x1, x2, u)\<close> when that
  returns \<open>u\<close>, and raises what that raises.
\<close>

theorem find_optimal_closed_form_rounded:
  assumes "ordinary alpha" "ordinary beta" "ordinary p1" "ordinary p2" "ordinary m"
  shows "\<exists>X1 X2.
           find_optimal p1 p2 alpha beta (Some m)
             = and_then (utility (flt X1) alpha (flt X2) beta) (\<lambda>u. Returns (flt X1, flt X2, u))
           \<and> X2 = rnd (value_of m
                    / rnd (rnd (rnd (value_of alpha / value_of beta) * value_of p2) + value_of p2))
           \<and> X1 = rnd (rnd (rnd (value_of alpha / value_of beta)
                    * rnd (value_of p2 / value_of p1)) * X2)"
proof -
  from assms obtain X2 X1 where
    "find_optimal p1 p2 alpha beta (Some m)
       = and_then (utility (flt X1) alpha (flt X2) beta) (\<lambda>u. Returns (flt X1, flt X2, u))"
    "X2 = rnd (value_of m
                / rnd (rnd (rnd (value_of alpha / value_of beta) * value_of p2) + value_of p2))"
    "X1 = rnd (rnd (rnd (value_of alpha / value_of beta) * rnd (value_of p2 / value_of p1))
                * X2)"
    by (rule bundle_chain)
  then show ?thesis
    by blast
qed

theorem find_optimal_closed_form_rounded_witness:
  "\<exists>X1 X2.
     find_optimal (PyInt 1) (PyInt 1) (flt (1/2)) (flt (1/2)) (Some (PyInt 10))
       = and_then (utility (flt X1) (flt (1/2)) (flt X2) (flt (1/2)))
           (\<lambda>u. Returns (flt X1, flt X2, u))
     \<and> X2 = rnd (10 / rnd (rnd (rnd ((1/2) / (1/2)) * 1) + 1))
     \<and> X1 = rnd (rnd (rnd ((1/2) / (1/2)) * rnd (1 / 1)) * X2)"
  using find_optimal_closed_form_rounded
    [of "flt (1/2)" "flt (1/2)" "PyInt 1" "PyInt 1" "PyInt 10"]
  by (simp add: inrng_def)

subsection \<open>C2: the budget\<close>

text \<open>
  C2, as the claim states it, fails, also within a tolerance: with \<open>p1 = 2 ^ 600\<close>,
  \<open>p2 = 2 ^ - 600\<close> and \<open>alpha = beta = m = 1.0\<close> the price ratio \<open>p2 / p1\<close> underflows
  to zero, the call returns \<open>x1 = 0.0\<close>, \<open>x2 = 2 ^ 599\<close>, and the bundle costs
  \<open>x1 * p1 + x2 * p2 = 0.5\<close>, half the income.
\<close>

theorem find_optimal_underflow_half_spent:
  "find_optimal (flt (2 ^ 600)) (flt (1 / 2 ^ 600)) (flt 1) (flt 1) (Some (flt 1))
     = Returns (flt 0, flt (2 ^ 599), flt 0)
   \<and> spent (flt (2 ^ 600)) (flt (1 / 2 ^ 600)) (flt 0) (flt (2 ^ 599)) = Returns (flt (1 / 2))"
  using underflow_bundle_gen [of 600] underflow_spent_gen [of 600]
  by (simp add: power_int_minus divide_simps)

text \<open>
  C2, as the code has it. For ordinary inputs the bundle \<open>(x1, x2)\<close> of the call costs the
  income within a relative error of \<open>2 ^ - 50\<close> in exact arithmetic, and within \<open>2 ^ - 49\<close>
  when the cost \<open>x1 * p1 + x2 * p2\<close> is itself computed in Python.
\<close>

theorem find_optimal_budget_within_tolerance:
  assumes "ordinary alpha" "ordinary beta" "ordinary p1" "ordinary p2" "ordinary m"
  shows "\<exists>X1 X2 s.
           find_optimal p1 p2 alpha beta (Some m)
             = and_then (utility (flt X1) alpha (flt X2) beta) (\<lambda>u. Returns (flt X1, flt X2, u))
           \<and> \<bar>X1 * value_of p1 + X2 * value_of p2 - value_of m\<bar> \<le> value_of m / 2 ^ 50
           \<and> spent p1 p2 (flt X1) (flt X2) = Returns (flt s)
           \<and> \<bar>s - value_of m\<bar> \<le> value_of m / 2 ^ 49"
proof -
  define P1 P2 M where "P1 = value_of p1" and "P2 = value_of p2" and "M = value_of m"
  from assms obtain q a d X2 r b X1 where
    call: "find_optimal p1 p2 alpha beta (Some m)
       = and_then (utility (flt X1) alpha (flt X2) beta) (\<lambda>u. Returns (flt X1, flt X2, u))"
    and n: "near q (value_of alpha / value_of beta)" "near a (q * P2)" "near d (a + P2)"
        "near X2 (M / d)" "near r (P2 / P1)" "near b (q * r)" "near X1 (b * X2)"
    and rng: "inrng 201 q" "inrng 302 a" "inrng 304 d" "inrng 405 X2" "inrng 201 r" "inrng 403 b"
        "inrng 809 X1"
    unfolding P1_def P2_def M_def by (rule bundle_chain)
  have i: "inrng 100 P1" "inrng 100 P2" "inrng 100 M"
    unfolding P1_def P2_def M_def using assms(3-5) by (simp_all only: ordinary_inrng)
  define U :: real where "U = 1 + 1 / 2 ^ 53"
  define L :: real where "L = 1 - 1 / 2 ^ 53"
  have U: "0 < U" and L: "0 < L"
    by (simp_all add: U_def L_def)
  define E where "E = X1 * P1 + X2 * P2"
  note pos = inrng_pos [OF rng(1)] inrng_pos [OF i(1)] inrng_pos [OF i(2)] inrng_pos [OF i(3)]
  have up: "E * L ^ 2 \<le> M * U ^ 4"
    unfolding E_def U_def L_def using pos n(2-7) by (rule exact_budget_upper)
  have lo: "M * L ^ 4 \<le> E * U ^ 2"
    unfolding E_def U_def L_def using pos n(2-7) by (rule exact_budget_lower)
  have Elo: "M * (L ^ 4 / U ^ 2) \<le> E"
    using lo U by (simp add: pos_divide_le_eq)
  have Eup: "E \<le> M * (U ^ 4 / L ^ 2)"
    using up L by (simp add: pos_le_divide_eq)
  have t1: "1 - 1 / 2 ^ 50 \<le> L ^ 4 / U ^ 2"
    using tol_exact_lower U by (simp add: pos_le_divide_eq U_def L_def)
  have t2: "U ^ 4 / L ^ 2 \<le> 1 + 1 / 2 ^ 50"
    using tol_exact_upper L by (simp add: pos_divide_le_eq U_def L_def)
  have exact: "\<bar>E - M\<bar> \<le> M * (1 / 2 ^ 50)"
    using pos(4) Elo Eup t1 t2 by (rule abs_le_from_factors)
  have A: "py_mul (flt X1) p1 = Returns (flt (rnd (X1 * P1)))"
     "near (rnd (X1 * P1)) (X1 * P1)" "inrng 910 (rnd (X1 * P1))"
    unfolding py_mul_float_ordinary [OF assms(3)] P1_def [symmetric]
    using py_mul_inrng [OF rng(7) i(1)] by simp_all
  have B: "py_mul (flt X2) p2 = Returns (flt (rnd (X2 * P2)))"
     "near (rnd (X2 * P2)) (X2 * P2)" "inrng 506 (rnd (X2 * P2))"
    unfolding py_mul_float_ordinary [OF assms(4)] P2_def [symmetric]
    using py_mul_inrng [OF rng(4) i(2)] by simp_all
  have B': "inrng 910 (rnd (X2 * P2))"
    using B(3) by (rule inrng_mono) simp
  define s where "s = rnd (rnd (X1 * P1) + rnd (X2 * P2))"
  have S: "py_add (flt (rnd (X1 * P1))) (flt (rnd (X2 * P2))) = Returns (flt s)"
     "near s (rnd (X1 * P1) + rnd (X2 * P2))"
    unfolding s_def using py_add_inrng [OF A(3) B'] by simp_all
  have sp: "spent p1 p2 (flt X1) (flt X2) = Returns (flt s)"
    by (simp only: spent_def A(1) B(1) S(1) and_then.simps)
  have Epos: "0 < E"
    unfolding E_def using inrng_pos [OF rng(7)] inrng_pos [OF rng(4)] pos
    by (intro add_pos_pos mult_pos_pos)
  have "s \<le> (rnd (X1 * P1) + rnd (X2 * P2)) * U"
    using S(2) by (simp only: near_upper U_def)
  also have "rnd (X1 * P1) + rnd (X2 * P2) \<le> X1 * P1 * U + X2 * P2 * U"
    using A(2) B(2) by (intro add_mono) (simp_all only: near_upper U_def)
  also have "(X1 * P1 * U + X2 * P2 * U) * U = E * U ^ 2"
    by (simp add: E_def algebra_simps power2_eq_square)
  finally have s_up: "s \<le> E * U ^ 2"
    using U by simp
  have "E * L ^ 2 = (X1 * P1 * L + X2 * P2 * L) * L"
    by (simp add: E_def algebra_simps power2_eq_square)
  also have "X1 * P1 * L + X2 * P2 * L \<le> rnd (X1 * P1) + rnd (X2 * P2)"
    using A(2) B(2) by (intro add_mono) (simp_all only: near_lower L_def)
  also have "(rnd (X1 * P1) + rnd (X2 * P2)) * L \<le> s"
    using S(2) by (simp only: near_lower L_def)
  finally have s_lo: "E * L ^ 2 \<le> s"
    using L by simp
  have "s \<le> M * (U ^ 4 / L ^ 2) * U ^ 2"
    using s_up Eup U by (meson mult_right_mono order_trans zero_le_power less_imp_le)
  then have s_up': "s \<le> M * (U ^ 6 / L ^ 2)"
    by (simp add: power_add [symmetric] algebra_simps)
  have "M * (L ^ 4 / U ^ 2) * L ^ 2 \<le> s"
    using s_lo Elo L by (meson mult_right_mono order_trans zero_le_power less_imp_le)
  then have s_lo': "M * (L ^ 6 / U ^ 2) \<le> s"
    by (simp add: power_add [symmetric] algebra_simps)
  have t3: "1 - 1 / 2 ^ 49 \<le> L ^ 6 / U ^ 2"
    using tol_lower U by (simp add: pos_le_divide_eq U_def L_def)
  have t4: "U ^ 6 / L ^ 2 \<le> 1 + 1 / 2 ^ 49"
    using tol_upper L by (simp add: pos_divide_le_eq U_def L_def)
  have "\<bar>s - M\<bar> \<le> M * (1 / 2 ^ 49)"
    using pos(4) s_lo' s_up' t3 t4 by (rule abs_le_from_factors)
  with exact sp call show ?thesis
    unfolding E_def P1_def P2_def M_def by auto
qed

theorem find_optimal_budget_within_tolerance_witness:
  "\<exists>X1 X2 s.
     find_optimal (PyInt 1) (PyInt 1) (flt (1/2)) (flt (1/2)) (Some (PyInt 10))
       = and_then (utility (flt X1) (flt (1/2)) (flt X2) (flt (1/2)))
           (\<lambda>u. Returns (flt X1, flt X2, u))
     \<and> \<bar>X1 * 1 + X2 * 1 - 10\<bar> \<le> 10 / 2 ^ 50
     \<and> spent (PyInt 1) (PyInt 1) (flt X1) (flt X2) = Returns (flt s)
     \<and> \<bar>s - 10\<bar> \<le> 10 / 2 ^ 49"
  using find_optimal_budget_within_tolerance
    [of "flt (1/2)" "flt (1/2)" "PyInt 1" "PyInt 1" "PyInt 10"]
  by (simp add: inrng_def)

subsection \<open>C3: inputs that are not positive\<close>

text \<open>
  C3, as the claim states it, fails: the code checks none of its inputs. With the income
  \<open>m = 0\<close> and the other inputs 1 the call raises nothing and returns the bundle
  \<open>(0.0, 0.0, 0.0)\<close>.
\<close>

theorem find_optimal_zero_income_returns:
  "find_optimal (PyInt 1) (PyInt 1) (PyInt 1) (PyInt 1) (Some (PyInt 0))
     = Returns (flt 0, flt 0, flt 0)"
  by (rule zero_income_bundle)

text \<open>
  C3, as the code has it. With \<open>beta\<close> zero (the int \<open>0\<close>, the float \<open>0.0\<close> or \<open>-0.0\<close>)
  the call raises at its first division \<open>alpha / beta\<close>, whatever the other inputs are,
  and returns nothing: Python's \<^verbatim>\<open>ZeroDivisionError\<close>, or its \<^verbatim>\<open>OverflowError\<close> when
  \<open>alpha\<close> is an int too large for a float and \<open>beta\<close> a float zero. The code has no
  error of its own.
\<close>

theorem find_optimal_zero_beta_raises:
  assumes "zero_number beta"
  shows "find_optimal p1 p2 alpha beta mo =
           (if as_float alpha = Raises OverflowError \<and> beta \<noteq> PyInt 0 then Raises OverflowError
            else Raises ZeroDivisionError)"
  using assms by (rule find_optimal_zero_beta)

theorem find_optimal_zero_beta_raises_witness:
  "zero_number (flt 0)
   \<and> find_optimal (PyInt 1) (PyInt 1) (flt (1/2)) (flt 0) (Some (PyInt 10))
       = Raises ZeroDivisionError"
  using find_optimal_zero_beta_raises [of "flt 0" "PyInt 1" "PyInt 1" "flt (1/2)" "Some (PyInt 10)"]
  by (simp add: zero_number_def)

subsection \<open>C8: positive quantities\<close>

text \<open>
  C8, as the claim states it, fails: with \<open>alpha = 2 ^ 600\<close>, \<open>beta = 2 ^ - 600\<close> and
  \<open>p1 = p2 = m = 1.0\<close> the quotient \<open>alpha / beta\<close> overflows to infinity, and the call
  returns \<open>x2 = 0.0\<close> and \<open>x1 = nan\<close>, which is no real number.
\<close>

theorem find_optimal_returns_nan:
  "find_optimal (flt 1) (flt 1) (flt (2 ^ 600)) (flt (1 / 2 ^ 600)) (Some (flt 1))
     = Returns (PyFloat NaN, flt 0, PyFloat NaN)"
  using nan_bundle_gen [of 600] by (simp add: power_int_minus divide_simps)

text \<open>
  C8, as the code has it. For ordinary inputs the quantities \<open>x1\<close> and \<open>x2\<close> of the call
  are finite floats and strictly positive; and when moreover \<open>alpha \<le> 1\<close> and
  \<open>beta \<le> 1\<close> the call does return them, with a float utility.
\<close>

theorem find_optimal_bundle_positive:
  assumes "ordinary alpha" "ordinary beta" "ordinary p1" "ordinary p2" "ordinary m"
  shows "\<exists>X1 X2.
           find_optimal p1 p2 alpha beta (Some m)
             = and_then (utility (flt X1) alpha (flt X2) beta) (\<lambda>u. Returns (flt X1, flt X2, u))
           \<and> 0 < X1 \<and> 0 < X2
           \<and> (value_of alpha \<le> 1 \<and> value_of beta \<le> 1 \<longrightarrow>
                (\<exists>u. find_optimal p1 p2 alpha beta (Some m)
                        = Returns (flt X1, flt X2, PyFloat u)))"
proof -
  from assms obtain q a d X2 r b X1 where
    call: "find_optimal p1 p2 alpha beta (Some m)
       = and_then (utility (flt X1) alpha (flt X2) beta) (\<lambda>u. Returns (flt X1, flt X2, u))"
    and "near q (value_of alpha / value_of beta)" "near a (q * value_of p2)"
        "near d (a + value_of p2)" "near X2 (value_of m / d)"
        "near r (value_of p2 / value_of p1)" "near b (q * r)" "near X1 (b * X2)"
    and rng: "inrng 201 q" "inrng 302 a" "inrng 304 d" "inrng 405 X2" "inrng 201 r"
        "inrng 403 b" "inrng 809 X1"
    by (rule bundle_chain)
  have "\<exists>u. find_optimal p1 p2 alpha beta (Some m) = Returns (flt X1, flt X2, PyFloat u)"
    if "value_of alpha \<le> 1" "value_of beta \<le> 1"
  proof -
    from utility_returns_ordinary [OF rng(7,4) assms(1,2) that]
    obtain u where "utility (flt X1) alpha (flt X2) beta = Returns (PyFloat u)" ..
    then show ?thesis
      unfolding call by simp
  qed
  with call inrng_pos [OF rng(7)] inrng_pos [OF rng(4)] show ?thesis
    by blast
qed

theorem find_optimal_bundle_positive_witness:
  "\<exists>X1 X2 u. find_optimal (PyInt 1) (PyInt 1) (flt (1/2)) (flt (1/2)) (Some (PyInt 10))
                = Returns (flt X1, flt X2, PyFloat u) \<and> 0 < X1 \<and> 0 < X2"
  using find_optimal_bundle_positive
    [of "flt (1/2)" "flt (1/2)" "PyInt 1" "PyInt 1" "PyInt 10"]
  by (auto simp add: inrng_def)

subsection \<open>C10: the default income\<close>

text \<open>
  C10. The income of \<^verbatim>\<open>find_optimal\<close> defaults to 1: a call with four arguments returns
  what the call with the fifth argument 1 returns.
\<close>

theorem find_optimal_default_income:
  "find_optimal p1 p2 alpha beta None = find_optimal p1 p2 alpha beta (Some (PyInt 1))"
  by (simp add: find_optimal_def)

theorem find_optimal_default_income_witness:
  "find_optimal (PyInt 1) (PyInt 1) (PyInt 1) (PyInt 1) None
     = find_optimal (PyInt 1) (PyInt 1) (PyInt 1) (PyInt 1) (Some (PyInt 1))"
  by (rule find_optimal_default_income)

end
